theory Spec2Isabelle
  imports Main
begin

section \<open>The LRU store of package cache (lru.go) and its control functions (cache.go)\<close>

text \<open>
  Times (\<open>time.Time\<close>) and durations (\<open>time.Duration\<close>) are integer nanosecond counts;
  \<open>t.Before(u)\<close> is \<open>t < u\<close>, \<open>t.After(u)\<close> is \<open>u < t\<close> and \<open>t.Add(d)\<close> is \<open>t + d\<close>.
  Every call of \<open>time.Now()\<close> is an explicit argument of the operation that makes it.
  A Go \<open>string\<close> and a \<open>[]byte\<close> are lists of 8-bit characters, so \<open>len\<close> is \<open>length\<close>.
  Go's \<open>int\<close> counters (\<open>mem\<close>, \<open>maxMem\<close>, \<open>reads\<close>, \<open>hits\<close>) are unbounded integers:
  the sizes of resident entries are bounded by the address space, far below \<open>2^63\<close>.
  The mutex is left out: every operation runs to completion under the lock, so the
  model is the sequential behaviour of one operation at a time.
\<close>

type_synonym time = int
type_synonym duration = int
type_synonym bytes = "char list"

definition hour :: duration where
  "hour = 3600000000000"

record entry =
  key :: string
  "value" :: bytes
  expiration :: time

text \<open>
  The struct \<open>lru\<close>. The doubly linked \<open>container/list\<close> is the list of its entries from
  front to back. The map \<open>cache\<close> sends a key to a list element; an element is
  identified by the entry it carries.
\<close>

record lru =
  maxMem :: int
  mem :: int
  cache :: "string \<rightharpoonup> entry"
  list :: "entry list"
  earliestExpiration :: time
  disabled :: bool
  reads :: int
  hits :: int

text \<open>\<open>entry.size\<close>: key and value lengths plus 24 bytes for the expiration.\<close>

definition size_entry :: "entry \<Rightarrow> int" where
  "size_entry e = int (length (key e)) + int (length (value e)) + 24"

text \<open>\<open>newLRU\<close>; the second argument is the reading of \<open>time.Now()\<close>.\<close>

definition newLRU :: "int \<Rightarrow> time \<Rightarrow> lru" where
  "newLRU maxMem0 now =
     \<lparr>maxMem = maxMem0, mem = 0, cache = Map.empty, list = [],
      earliestExpiration = now + 24 * hour, disabled = False, reads = 0, hits = 0\<rparr>"

definition reset :: "lru \<Rightarrow> lru" where
  "reset c = c\<lparr>mem := 0, list := [], cache := Map.empty\<rparr>"

text \<open>
  \<open>_deleteKey\<close> (the version called with the lock held). \<open>list.Remove\<close> unlinks the
  element if it is in the list and does nothing otherwise.
\<close>

definition internal_deleteKey :: "string \<Rightarrow> lru \<Rightarrow> lru" where
  "internal_deleteKey k c =
     (case cache c k of
        None \<Rightarrow> c
      | Some e \<Rightarrow> c\<lparr>list := remove1 e (list c),
                     mem := mem c - size_entry e,
                     cache := (cache c)(key e := None)\<rparr>)"

definition deleteKey :: "string \<Rightarrow> lru \<Rightarrow> lru" where
  "deleteKey k c = internal_deleteKey k c"

text \<open>\<open>list.MoveToFront\<close>: no effect on an element that is not in the list.\<close>

definition moveToFront :: "entry \<Rightarrow> entry list \<Rightarrow> entry list" where
  "moveToFront e xs = (if e \<in> set xs then e # remove1 e xs else xs)"

text \<open>\<open>get\<close> returns the value (\<open>None\<close> for \<open>nil, false\<close>) and the updated store.\<close>

definition get :: "string \<Rightarrow> time \<Rightarrow> lru \<Rightarrow> bytes option \<times> lru" where
  "get k now c =
     (if disabled c then (None, c)
      else
        let c1 = c\<lparr>reads := reads c + 1\<rparr> in
        case cache c1 k of
          Some e \<Rightarrow>
            if now < expiration e
            then (Some (value e), c1\<lparr>hits := hits c1 + 1, list := moveToFront e (list c1)\<rparr>)
            else (None, internal_deleteKey (key e) c1)
        | None \<Rightarrow> (None, c1))"

text \<open>
  \<open>_evictExpired\<close>. The loop visits the elements from the back to the front, reading
  the predecessor before the body may unlink the current element. On a store whose map
  is the index of its list, \<open>_deleteKey(e.key)\<close> unlinks the element of \<open>e\<close> itself, so the
  loop visits every element the list had on entry exactly once: the model folds
  \<open>sweep_step\<close>, the loop body, over that list from the back.
\<close>

definition sweep_step :: "time \<Rightarrow> entry \<Rightarrow> lru \<Rightarrow> lru" where
  "sweep_step now e c =
     (if expiration e < now then internal_deleteKey (key e) c
      else if expiration e < earliestExpiration c then c\<lparr>earliestExpiration := expiration e\<rparr>
      else c)"

definition internal_evictExpired :: "time \<Rightarrow> lru \<Rightarrow> lru" where
  "internal_evictExpired now c =
     (if now < earliestExpiration c then c
      else fold (sweep_step now) (rev (list c)) (c\<lparr>earliestExpiration := now + 24 * hour\<rparr>))"

text \<open>
  The eviction loop of \<open>put\<close> (lines 110 to 115). Inside the loop the list has more
  than one element, so \<open>Back()\<close> is not nil. The loop does not return when
  \<open>_deleteKey\<close> changes nothing, hence the option type.
\<close>

partial_function (option) evictLoop :: "lru \<Rightarrow> lru option" where
  "evictLoop c =
     (if maxMem c < mem c \<and> 1 < length (list c)
      then evictLoop (internal_deleteKey (key (last (list c))) c)
      else Some c)"

declare evictLoop.simps [code]

text \<open>
  The first half of \<open>put\<close> on an enabled store (lines 95 to 104): the old entry of the
  key is deleted, the new entry is pushed to the front and the watermark lowered.
\<close>

definition insertFront :: "string \<Rightarrow> bytes \<Rightarrow> time \<Rightarrow> lru \<Rightarrow> lru" where
  "insertFront k v expiration0 c =
     (let c1 = internal_deleteKey k c;
          newEntry = \<lparr>key = k, value = v, expiration = expiration0\<rparr>;
          c2 = c1\<lparr>list := newEntry # list c1,
                  cache := (cache c1)(k \<mapsto> newEntry),
                  mem := mem c1 + size_entry newEntry\<rparr>
      in if expiration0 < earliestExpiration c2
         then c2\<lparr>earliestExpiration := expiration0\<rparr> else c2)"

text \<open>
  \<open>put\<close>. \<open>now\<close> is the clock reading that fixes the expiration, \<open>snow\<close> the later
  reading taken inside \<open>_evictExpired\<close>; no relation between the two is assumed.
\<close>

definition put :: "string \<Rightarrow> bytes \<Rightarrow> duration \<Rightarrow> time \<Rightarrow> time \<Rightarrow> lru \<Rightarrow> lru option" where
  "put k v ttl now snow c =
     (if disabled c then Some c
      else
        let c3 = insertFront k v (now + ttl) c in
        if maxMem c3 < mem c3 then evictLoop (internal_evictExpired snow c3)
        else Some c3)"

subsection \<open>The control functions of \<open>Component\<close> (cache.go)\<close>

record Stats =
  MaxMemory :: int
  UsedMemory :: int
  Items :: int
  Reads :: int
  Hits :: int

definition stats :: "lru \<Rightarrow> Stats" where
  "stats l = \<lparr>MaxMemory = maxMem l, UsedMemory = mem l, Items = int (length (list l)),
              Reads = reads l, Hits = hits l\<rparr>"

definition Remove :: "string \<Rightarrow> lru \<Rightarrow> lru" where
  "Remove k c = deleteKey k c"

definition Disable :: "bool \<Rightarrow> lru \<Rightarrow> lru" where
  "Disable disable c = (let c1 = (if disable then reset c else c) in c1\<lparr>disabled := disable\<rparr>)"

definition Reset :: "lru \<Rightarrow> lru" where
  "Reset c = reset c"

subsection \<open>Sequences of operations\<close>

text \<open>
  A client calls \<open>get\<close> and \<open>put\<close> (through \<open>Render\<close>), \<open>Remove\<close>, \<open>Reset\<close> and \<open>Disable\<close>
  in any order; \<open>run\<close> applies such a sequence and is \<open>None\<close> if an operation does not
  return.
\<close>

datatype op =
    Get string time
  | Put string bytes duration time time
  | RemoveOp string
  | ResetOp
  | DisableOp bool

fun step :: "op \<Rightarrow> lru \<Rightarrow> lru option" where
  "step (Get k now) c = Some (snd (get k now c))"
| "step (Put k v ttl now snow) c = put k v ttl now snow c"
| "step (RemoveOp k) c = Some (Remove k c)"
| "step ResetOp c = Some (Reset c)"
| "step (DisableOp b) c = Some (Disable b c)"

fun run :: "op list \<Rightarrow> lru \<Rightarrow> lru option" where
  "run [] c = Some c"
| "run (x # xs) c = (case step x c of None \<Rightarrow> None | Some c' \<Rightarrow> run xs c')"

text \<open>
  The representation invariant: the keys of the list are distinct, the map is the
  index of the list, and \<open>mem\<close> is the sum of the sizes. Every store reached from
  \<open>newLRU\<close> satisfies it (lemma \<open>run_fresh\<close> below).
\<close>

definition index_of :: "entry list \<Rightarrow> (string \<rightharpoonup> entry)" where
  "index_of xs = map_of (map (\<lambda>e. (key e, e)) xs)"

definition consistent :: "lru \<Rightarrow> bool" where
  "consistent c \<longleftrightarrow>
     distinct (map key (list c)) \<and> cache c = index_of (list c) \<and>
     mem c = sum_list (map size_entry (list c))"

text \<open>The watermark is not later than the expiration of any resident entry.\<close>

definition watermark_ok :: "lru \<Rightarrow> bool" where
  "watermark_ok c \<longleftrightarrow> (\<forall>e\<in>set (list c). earliestExpiration c \<le> expiration e)"

text \<open>
  What every operation keeps: the representation invariant, the watermark bound, an
  empty list while disabled, and \<open>hits \<le> reads\<close>.
\<close>

definition sound :: "lru \<Rightarrow> bool" where
  "sound c \<longleftrightarrow> consistent c \<and> watermark_ok c \<and> (disabled c \<longrightarrow> list c = []) \<and> hits c \<le> reads c"

subsection \<open>Concrete stores used as examples\<close>

text \<open>
  A store of capacity 100 holding \<open>A\<close> and then \<open>B\<close>, as two calls of \<open>put\<close> leave it
  (56 bytes, below the capacity, so no eviction runs).
\<close>

definition two_entries :: lru where
  "two_entries = insertFront ''B'' ''BBB'' 301 (insertFront ''A'' ''AAA'' 300 (newLRU 100 0))"

text \<open>
  The store on which \<open>put\<close> calls \<open>_evictExpired\<close> when, on a store of capacity 10 that
  holds \<open>A\<close> (expiring after one hour), \<open>B\<close> is inserted with an expiration of 50 hours.
\<close>

definition sweep_input :: lru where
  "sweep_input = insertFront ''B'' ''b'' (50 * hour) (insertFront ''A'' ''a'' (1 * hour) (newLRU 10 0))"

subsection \<open>The example stores\<close>

text \<open>
  Both example stores arise from a fresh store by calls of \<open>put\<close>: \<open>two_entries\<close> is the
  result of two calls, and \<open>sweep_input\<close> is the store that the second call hands to
  \<open>_evictExpired\<close>, whenever that call is made and whatever the clock reads in the sweep.
\<close>

lemma two_entries_value:
  "two_entries =
     \<lparr>maxMem = 100, mem = 56,
      cache = [''A'' \<mapsto> \<lparr>key = ''A'', value = ''AAA'', expiration = 300\<rparr>,
               ''B'' \<mapsto> \<lparr>key = ''B'', value = ''BBB'', expiration = 301\<rparr>],
      list = [\<lparr>key = ''B'', value = ''BBB'', expiration = 301\<rparr>,
              \<lparr>key = ''A'', value = ''AAA'', expiration = 300\<rparr>],
      earliestExpiration = 300, disabled = False, reads = 0, hits = 0\<rparr>"
  by (simp add: two_entries_def insertFront_def internal_deleteKey_def newLRU_def Let_def
      size_entry_def hour_def)


lemma sweep_input_value:
  "sweep_input =
     \<lparr>maxMem = 10, mem = 52,
      cache = [''A'' \<mapsto> \<lparr>key = ''A'', value = ''a'', expiration = 3600000000000\<rparr>,
               ''B'' \<mapsto> \<lparr>key = ''B'', value = ''b'', expiration = 180000000000000\<rparr>],
      list = [\<lparr>key = ''B'', value = ''b'', expiration = 180000000000000\<rparr>,
              \<lparr>key = ''A'', value = ''a'', expiration = 3600000000000\<rparr>],
      earliestExpiration = 3600000000000, disabled = False, reads = 0, hits = 0\<rparr>"
  by (simp add: sweep_input_def insertFront_def internal_deleteKey_def newLRU_def Let_def
      size_entry_def hour_def)

lemma sweep_input_consistent: "consistent sweep_input"
  unfolding sweep_input_value by (simp add: consistent_def index_of_def size_entry_def)

lemma sweep_input_swept:
  "list (internal_evictExpired (2 * hour) sweep_input) =
     [\<lparr>key = ''B'', value = ''b'', expiration = 50 * hour\<rparr>] \<and>
   earliestExpiration (internal_evictExpired (2 * hour) sweep_input) = 26 * hour"
  unfolding sweep_input_value
  by (simp add: internal_evictExpired_def sweep_step_def internal_deleteKey_def hour_def)

lemma two_entries_reached:
  "run [Put ''A'' ''AAA'' 300 0 0, Put ''B'' ''BBB'' 300 1 1] (newLRU 100 0) = Some two_entries"
  unfolding two_entries_value
  by (simp add: Let_def put_def insertFront_def internal_deleteKey_def newLRU_def size_entry_def
      hour_def fun_upd_twist)

lemma sweep_input_reached:
  "run [Put ''A'' ''a'' (1 * hour) 0 0] (newLRU 10 0) =
     Some (insertFront ''A'' ''a'' (1 * hour) (newLRU 10 0)) \<and>
   put ''B'' ''b'' (50 * hour - now) now snow (insertFront ''A'' ''a'' (1 * hour) (newLRU 10 0)) =
     evictLoop (internal_evictExpired snow sweep_input)"
  by (simp add: Let_def put_def insertFront_def internal_deleteKey_def newLRU_def size_entry_def
      hour_def sweep_input_def internal_evictExpired_def evictLoop.simps)

subsection \<open>The index of a list\<close>

lemma index_of_Cons: "index_of (e # xs) = (index_of xs)(key e \<mapsto> e)"
  by (simp add: index_of_def)

lemma index_of_eq_None: "index_of xs k = None \<longleftrightarrow> k \<notin> key ` set xs"
  by (simp add: index_of_def map_of_eq_None_iff image_image)

lemma index_of_Some:
  "distinct (map key xs) \<Longrightarrow> index_of xs k = Some e \<longleftrightarrow> e \<in> set xs \<and> key e = k"
  by (induction xs) (auto simp: index_of_Cons index_of_def image_iff)

lemma index_of_filter: "index_of (filter (\<lambda>e. key e \<noteq> k) xs) = (index_of xs)(k := None)"
  by (induction xs) (auto simp: index_of_Cons index_of_def)

lemma remove1_filter_key:
  "distinct (map key xs) \<Longrightarrow> e \<in> set xs \<Longrightarrow> remove1 e xs = filter (\<lambda>x. key x \<noteq> key e) xs"
proof (induction xs)
  case Nil
  then show ?case by simp
next
  case (Cons a xs)
  show ?case
  proof (cases "a = e")
    case True
    with Cons.prems have "\<forall>x\<in>set xs. key x \<noteq> key e" by (auto simp: image_iff)
    then have "filter (\<lambda>x. key x \<noteq> key e) xs = xs" by (simp add: filter_id_conv)
    with True show ?thesis by simp
  next
    case False
    with Cons show ?thesis by auto
  qed
qed

lemma filter_key_absent:
  "k \<notin> key ` set xs \<Longrightarrow> filter (\<lambda>x. key x \<noteq> k) xs = xs"
  by (induction xs) auto

lemma sum_filter_key:
  "distinct (map key xs) \<Longrightarrow> e \<in> set xs \<Longrightarrow>
   sum_list (map size_entry (filter (\<lambda>x. key x \<noteq> key e) xs)) = sum_list (map size_entry xs) - size_entry e"
  using sum_list_map_remove1 [of e xs size_entry] by (simp add: remove1_filter_key)

lemma deleteKey_frame:
  "maxMem (internal_deleteKey k c) = maxMem c"
  "earliestExpiration (internal_deleteKey k c) = earliestExpiration c"
  "disabled (internal_deleteKey k c) = disabled c"
  "reads (internal_deleteKey k c) = reads c"
  "hits (internal_deleteKey k c) = hits c"
  by (simp_all add: internal_deleteKey_def split: option.splits)

lemma deleteKey_list:
  assumes "consistent c"
  shows "list (internal_deleteKey k c) = filter (\<lambda>e. key e \<noteq> k) (list c)"
proof (cases "cache c k")
  case None
  with assms have "k \<notin> key ` set (list c)" by (simp add: consistent_def index_of_eq_None)
  with None show ?thesis by (simp add: internal_deleteKey_def filter_key_absent)
next
  case (Some e)
  with assms have "e \<in> set (list c)" "key e = k"
    by (simp_all add: consistent_def index_of_Some)
  with assms Some show ?thesis
    using remove1_filter_key [of "list c" e] by (simp add: internal_deleteKey_def consistent_def)
qed

lemma deleteKey_consistent:
  assumes "consistent c"
  shows "consistent (internal_deleteKey k c)"
proof (cases "cache c k")
  case None
  with assms show ?thesis by (simp add: internal_deleteKey_def)
next
  case (Some e)
  with assms have e: "e \<in> set (list c)" "key e = k"
    by (simp_all add: consistent_def index_of_Some)
  from assms have d: "distinct (map key (list c))" by (simp add: consistent_def)
  have l: "remove1 e (list c) = filter (\<lambda>x. key x \<noteq> k) (list c)"
    using remove1_filter_key [OF d e(1)] e(2) by simp
  have "distinct (map key (filter (\<lambda>x. key x \<noteq> k) (list c)))"
    using d by (simp add: distinct_map_filter)
  moreover have "sum_list (map size_entry (filter (\<lambda>x. key x \<noteq> k) (list c))) = mem c - size_entry e"
    using sum_filter_key [OF d e(1)] e(2) assms by (simp add: consistent_def)
  ultimately show ?thesis
    using Some assms e(2) l by (simp add: internal_deleteKey_def consistent_def index_of_filter)
qed

lemma filter_last_key:
  assumes "distinct (map key xs)" "xs \<noteq> []"
  shows "filter (\<lambda>x. key x \<noteq> key (last xs)) xs = butlast xs"
proof -
  have xs: "xs = butlast xs @ [last xs]" using assms(2) by simp
  with assms(1) have "distinct (map key (butlast xs @ [last xs]))" by simp
  then have "\<forall>x\<in>set (butlast xs). key x \<noteq> key (last xs)" by (auto simp: image_iff)
  then have "filter (\<lambda>x. key x \<noteq> key (last xs)) (butlast xs) = butlast xs"
    by (simp add: filter_id_conv)
  then have "filter (\<lambda>x. key x \<noteq> key (last xs)) (butlast xs @ [last xs]) = butlast xs"
    by simp
  with xs show ?thesis by simp
qed

subsection \<open>Disabling, reading while disabled, and Reset\<close>

text \<open>
  C6. \<open>Disable(true)\<close> resets the store and then sets the flag, so the list and the map
  are empty and \<open>mem\<close> is 0; \<open>Disable(false)\<close> only clears the flag. On a disabled
  store every \<open>get\<close> returns not-found and every \<open>put\<close> returns the store as it was.
\<close>

theorem disable_clears_then_blocks:
  "Disable True c = (reset c)\<lparr>disabled := True\<rparr> \<and>
   list (Disable True c) = [] \<and> cache (Disable True c) = Map.empty \<and>
   mem (Disable True c) = 0 \<and> disabled (Disable True c) \<and>
   Disable False c = c\<lparr>disabled := False\<rparr> \<and>
   (disabled c \<longrightarrow> get k now c = (None, c) \<and> put k v ttl now snow c = Some c)"
  by (simp add: Disable_def reset_def get_def put_def)

theorem disable_clears_then_blocks_witness:
  "length (list two_entries) = 2 \<and>
   disabled (Disable True two_entries) \<and>
   list (Disable True two_entries) = [] \<and> mem (Disable True two_entries) = 0 \<and>
   get ''A'' 5 (Disable True two_entries) = (None, Disable True two_entries) \<and>
   put ''A'' ''AAA'' 300 5 6 (Disable True two_entries) = Some (Disable True two_entries) \<and>
   list (Disable False (Disable True two_entries)) = []"
proof -
  note a = disable_clears_then_blocks [where c = two_entries]
  note b = disable_clears_then_blocks [where c = "Disable True two_entries" and k = "''A''"
      and now = 5 and v = "''AAA''" and ttl = 300 and snow = 6]
  have n: "length (list two_entries) = 2" by (simp add: two_entries_value)
  from a have d: "disabled (Disable True two_entries)" "list (Disable True two_entries) = []"
    "mem (Disable True two_entries) = 0" by blast+
  from b d(1) have g: "get ''A'' 5 (Disable True two_entries) = (None, Disable True two_entries)"
    "put ''A'' ''AAA'' 300 5 6 (Disable True two_entries) = Some (Disable True two_entries)"
    by blast+
  from b have "Disable False (Disable True two_entries) = (Disable True two_entries)\<lparr>disabled := False\<rparr>"
    by blast
  then have r: "list (Disable False (Disable True two_entries)) = []" using d(2) by simp
  from n d g r show ?thesis by blast
qed

text \<open>
  C7, as amended. A \<open>get\<close> on an enabled store adds one to \<open>reads\<close>; a \<open>get\<close> on a
  disabled store returns not-found before the counter is touched and leaves the whole
  store, \<open>reads\<close> included, as it was.
\<close>

theorem get_counts_enabled_reads:
  "reads (snd (get k now c)) = (if disabled c then reads c else reads c + 1) \<and>
   (disabled c \<longrightarrow> get k now c = (None, c))"
  by (simp add: get_def Let_def internal_deleteKey_def split: option.splits)

theorem get_counts_enabled_reads_witness:
  "disabled (Disable True (newLRU 100 0)) \<and>
   get ''A'' 5 (Disable True (newLRU 100 0)) = (None, Disable True (newLRU 100 0)) \<and>
   reads (snd (get ''A'' 5 (newLRU 100 0))) = 1"
  using get_counts_enabled_reads [of "''A''" 5 "Disable True (newLRU 100 0)"]
    get_counts_enabled_reads [of "''A''" 5 "newLRU 100 0"]
  by (simp add: Disable_def reset_def newLRU_def)

text \<open>
  C7 as stated fails: on a freshly disabled store a \<open>get\<close> does not add one to \<open>reads\<close>.
\<close>

theorem disabled_get_not_counted:
  "disabled (Disable True (newLRU 100 0)) \<and>
   reads (snd (get ''A'' 5 (Disable True (newLRU 100 0)))) \<noteq> reads (Disable True (newLRU 100 0)) + 1"
  by (simp add: get_def Disable_def reset_def newLRU_def)

text \<open>
  C8. The code at a concrete input: after one \<open>put\<close>, one hit and one miss, \<open>Reset\<close>
  empties the store and zeroes \<open>UsedMemory\<close> and \<open>Items\<close>, but the snapshot still reports
  two reads and one hit, where the comments of \<open>Stats\<close> and \<open>Reset\<close> in cache.go promise
  that the statistics are reset.
\<close>

theorem reset_keeps_counters:
  "map_option stats (run [Put ''A'' ''AAA'' 300 0 0, Get ''A'' 1, Get ''B'' 2, ResetOp] (newLRU 100 0))
     = Some \<lparr>MaxMemory = 100, UsedMemory = 0, Items = 0, Reads = 2, Hits = 1\<rparr>"
  by (simp add: put_def get_def insertFront_def internal_deleteKey_def moveToFront_def Let_def
      newLRU_def size_entry_def hour_def Reset_def reset_def stats_def)

text \<open>
  C10. \<open>Reset\<close> changes the list, the map and \<open>mem\<close> and nothing else: it empties the
  list and the map and zeroes \<open>mem\<close>, while the disabled flag, \<open>maxMem\<close>, the watermark
  \<open>earliestExpiration\<close> and the counters \<open>reads\<close> and \<open>hits\<close> stay as they were. A
  disabled store is still disabled after \<open>Reset\<close>: a \<open>get\<close> misses and a \<open>put\<close> changes
  nothing.
\<close>

theorem reset_frame:
  "Reset c = c\<lparr>mem := 0, list := [], cache := Map.empty\<rparr> \<and>
   disabled (Reset c) = disabled c \<and> maxMem (Reset c) = maxMem c \<and>
   earliestExpiration (Reset c) = earliestExpiration c \<and>
   reads (Reset c) = reads c \<and> hits (Reset c) = hits c \<and>
   list (Reset c) = [] \<and> cache (Reset c) = Map.empty \<and> mem (Reset c) = 0 \<and>
   (disabled c \<longrightarrow>
      disabled (Reset c) \<and> get k now (Reset c) = (None, Reset c) \<and>
      put k v ttl now snow (Reset c) = Some (Reset c))"
  by (simp add: Reset_def reset_def get_def put_def)

theorem reset_frame_witness:
  "earliestExpiration (Reset two_entries) = 300 \<and> maxMem (Reset two_entries) = 100 \<and>
   list (Reset two_entries) = [] \<and> mem (Reset two_entries) = 0 \<and>
   reads (snd (get ''A'' 5 two_entries)) = 1 \<and> hits (snd (get ''A'' 5 two_entries)) = 1 \<and>
   reads (Reset (snd (get ''A'' 5 two_entries))) = 1 \<and>
   hits (Reset (snd (get ''A'' 5 two_entries))) = 1 \<and>
   disabled (Disable True two_entries) \<and>
   disabled (Reset (Disable True two_entries)) \<and>
   get ''A'' 5 (Reset (Disable True two_entries)) = (None, Reset (Disable True two_entries)) \<and>
   put ''A'' ''AAA'' 300 5 6 (Reset (Disable True two_entries)) =
     Some (Reset (Disable True two_entries))"
proof -
  note a = reset_frame [where c = two_entries]
  note b = reset_frame [where c = "Disable True two_entries" and k = "''A''"
      and now = 5 and v = "''AAA''" and ttl = 300 and snow = 6]
  note h = reset_frame [where c = "snd (get ''A'' 5 two_entries)"]
  have v: "earliestExpiration two_entries = 300" "maxMem two_entries = 100"
    by (simp_all add: two_entries_value)
  have d: "disabled (Disable True two_entries)" by (simp add: Disable_def)
  have c: "reads (snd (get ''A'' 5 two_entries)) = 1" "hits (snd (get ''A'' 5 two_entries)) = 1"
    unfolding two_entries_value by (simp_all add: get_def)
  from a v have f: "earliestExpiration (Reset two_entries) = 300" "maxMem (Reset two_entries) = 100"
    "list (Reset two_entries) = []" "mem (Reset two_entries) = 0" by simp_all
  from h c have r: "reads (Reset (snd (get ''A'' 5 two_entries))) = 1"
    "hits (Reset (snd (get ''A'' 5 two_entries))) = 1" by simp_all
  from b d have g: "disabled (Reset (Disable True two_entries))"
    "get ''A'' 5 (Reset (Disable True two_entries)) = (None, Reset (Disable True two_entries))"
    "put ''A'' ''AAA'' 300 5 6 (Reset (Disable True two_entries)) =
       Some (Reset (Disable True two_entries))" by blast+
  from f c r d g show ?thesis by blast
qed

subsection \<open>The eviction loop on a consistent store\<close>

lemma deleteKey_last:
  assumes "consistent c" "list c \<noteq> []"
  shows "list (internal_deleteKey (key (last (list c))) c) = butlast (list c)"
  using assms deleteKey_list [OF assms(1), of "key (last (list c))"]
  by (simp add: filter_last_key consistent_def)

lemma sum_butlast:
  "xs \<noteq> [] \<Longrightarrow> sum_list (map size_entry (butlast xs)) + size_entry (last xs) = sum_list (map size_entry xs)"
  by (induction xs) auto

lemma evictLoop_consistent:
  assumes "consistent c"
  shows "\<exists>c'. evictLoop c = Some c' \<and> consistent c' \<and>
           list c' = take (length (list c')) (list c) \<and>
           (length (list c') < length (list c) \<longrightarrow>
              1 \<le> length (list c') \<and> maxMem c < mem c' + size_entry (list c ! length (list c'))) \<and>
           (mem c' \<le> maxMem c \<or> length (list c') \<le> 1) \<and>
           (list c \<noteq> [] \<longrightarrow> list c' \<noteq> []) \<and>
           maxMem c' = maxMem c \<and> earliestExpiration c' = earliestExpiration c \<and>
           disabled c' = disabled c \<and> reads c' = reads c \<and> hits c' = hits c"
  using assms
proof (induction "length (list c)" arbitrary: c rule: less_induct)
  case less
  show ?case
  proof (cases "maxMem c < mem c \<and> 1 < length (list c)")
    case False
    have "evictLoop c = Some c" by (subst evictLoop.simps) (use False in auto)
    with False less.prems show ?thesis by auto
  next
    case True
    define c1 where "c1 = internal_deleteKey (key (last (list c))) c"
    from True have ne: "list c \<noteq> []" by auto
    have l1: "list c1 = butlast (list c)"
      unfolding c1_def using less.prems ne by (rule deleteKey_last)
    have c1: "consistent c1"
      unfolding c1_def using less.prems by (rule deleteKey_consistent)
    have fr: "maxMem c1 = maxMem c" "earliestExpiration c1 = earliestExpiration c"
      "disabled c1 = disabled c" "reads c1 = reads c" "hits c1 = hits c"
      by (simp_all add: c1_def deleteKey_frame)
    have m1: "mem c1 + size_entry (last (list c)) = mem c"
      using c1 less.prems l1 sum_butlast [OF ne] by (simp add: consistent_def)
    have len1: "length (list c1) < length (list c)" using l1 ne by (cases "list c") auto
    from less.hyps [OF len1 c1] obtain c' where
      ev: "evictLoop c1 = Some c'" and con: "consistent c'"
      and pre: "list c' = take (length (list c')) (list c1)"
      and mini: "length (list c') < length (list c1) \<longrightarrow>
              1 \<le> length (list c') \<and> maxMem c1 < mem c' + size_entry (list c1 ! length (list c'))"
      and ex: "mem c' \<le> maxMem c1 \<or> length (list c') \<le> 1"
      and nonempty: "list c1 \<noteq> [] \<longrightarrow> list c' \<noteq> []"
      and fr': "maxMem c' = maxMem c1" "earliestExpiration c' = earliestExpiration c1"
        "disabled c' = disabled c1" "reads c' = reads c1" "hits c' = hits c1"
      by blast
    have ev': "evictLoop c = Some c'"
      by (subst evictLoop.simps) (use True ev in \<open>simp add: c1_def\<close>)
    have "length (list c') = min (length (list c')) (length (list c1))"
      using arg_cong [OF pre, of length] by simp
    then have le: "length (list c') \<le> length (list c1)" by linarith
    then have lt: "length (list c') < length (list c)" using len1 by simp
    have pre': "list c' = take (length (list c')) (list c)"
      using pre lt l1 by (simp add: take_butlast)
    have one: "1 \<le> length (list c')"
    proof -
      from True l1 have "list c1 \<noteq> []" by (cases "list c" rule: rev_cases) auto
      with nonempty have "list c' \<noteq> []" by simp
      then show ?thesis by (cases "list c'") auto
    qed
    have big: "maxMem c < mem c' + size_entry (list c ! length (list c'))"
    proof (cases "length (list c') < length (list c1)")
      case True
      with mini l1 fr show ?thesis by (simp add: nth_butlast)
    next
      case False
      with le have eq: "length (list c') = length (list c1)" by simp
      with pre have "list c' = list c1" by simp
      with con c1 have "mem c' = mem c1" by (simp add: consistent_def)
      moreover have "list c ! length (list c') = last (list c)"
        using eq l1 ne by (simp add: last_conv_nth)
      ultimately show ?thesis using m1 True by simp
    qed
    show ?thesis
      using ev' con pre' lt one big ex fr fr' ne by auto
  qed
qed

subsection \<open>The expiration sweep on a consistent store\<close>

lemma filter_key_is_filter_entry:
  assumes "distinct (map key xs)" "e \<in> set xs"
  shows "filter (\<lambda>x. key x \<noteq> key e) xs = filter (\<lambda>x. x \<noteq> e) xs"
proof (rule filter_cong [OF refl])
  fix x assume "x \<in> set xs"
  moreover from assms(1) have "inj_on key (set xs)" by (simp add: distinct_map)
  ultimately show "(key x \<noteq> key e) = (x \<noteq> e)" using assms(2) by (auto dest: inj_onD)
qed

lemma Min_insert_min:
  "finite S \<Longrightarrow> Min (insert (min a b) S) = Min (insert a (insert (b::int) S))"
  by (cases "S = {}") (auto simp: min.assoc)

lemma sweep_step_expired:
  "expiration e < now \<Longrightarrow> sweep_step now e c = internal_deleteKey (key e) c"
  by (simp add: sweep_step_def)

lemma sweep_step_live:
  "\<not> expiration e < now \<Longrightarrow>
   sweep_step now e c = c\<lparr>earliestExpiration := min (earliestExpiration c) (expiration e)\<rparr>"
  by (simp add: sweep_step_def min_def)

lemma consistent_watermark [simp]:
  "consistent (c\<lparr>earliestExpiration := t\<rparr>) = consistent c"
  by (simp add: consistent_def)

lemma sweep_fold:
  assumes "consistent c" "distinct es" "set es \<subseteq> set (list c)"
  shows "consistent (fold (sweep_step now) es c) \<and>
         list (fold (sweep_step now) es c) =
           filter (\<lambda>x. x \<notin> set es \<or> now \<le> expiration x) (list c) \<and>
         earliestExpiration (fold (sweep_step now) es c) =
           Min (insert (earliestExpiration c) (expiration ` {x \<in> set es. now \<le> expiration x})) \<and>
         maxMem (fold (sweep_step now) es c) = maxMem c \<and>
         disabled (fold (sweep_step now) es c) = disabled c \<and>
         reads (fold (sweep_step now) es c) = reads c \<and>
         hits (fold (sweep_step now) es c) = hits c"
  using assms
proof (induction es arbitrary: c)
  case Nil
  then show ?case by simp
next
  case (Cons e es)
  from Cons.prems have e: "e \<in> set (list c)" and d: "distinct es" and ne: "e \<notin> set es"
    and sub: "set es \<subseteq> set (list c)" by auto
  from Cons.prems have dk: "distinct (map key (list c))" by (simp add: consistent_def)
  show ?case
  proof (cases "expiration e < now")
    case True
    define c1 where "c1 = internal_deleteKey (key e) c"
    have s: "sweep_step now e c = c1" using True by (simp add: sweep_step_expired c1_def)
    have c1: "consistent c1" unfolding c1_def using Cons.prems(1) by (rule deleteKey_consistent)
    have l1: "list c1 = filter (\<lambda>x. x \<noteq> e) (list c)"
      unfolding c1_def using deleteKey_list [OF Cons.prems(1), of "key e"]
        filter_key_is_filter_entry [OF dk e] by simp
    have sub1: "set es \<subseteq> set (list c1)" using sub ne l1 by auto
    have fr: "maxMem c1 = maxMem c" "earliestExpiration c1 = earliestExpiration c"
      "disabled c1 = disabled c" "reads c1 = reads c" "hits c1 = hits c"
      by (simp_all add: c1_def deleteKey_frame)
    have f: "filter (\<lambda>x. x \<notin> set es \<or> now \<le> expiration x) (filter (\<lambda>x. x \<noteq> e) (list c))
             = filter (\<lambda>x. x \<notin> set (e # es) \<or> now \<le> expiration x) (list c)"
      using True by (auto intro: filter_cong)
    have m: "{x \<in> set (e # es). now \<le> expiration x} = {x \<in> set es. now \<le> expiration x}"
      using True by auto
    from Cons.IH [OF c1 d sub1] show ?thesis
      unfolding fold_simps s l1 f fr m by simp
  next
    case False
    define c1 where "c1 = c\<lparr>earliestExpiration := min (earliestExpiration c) (expiration e)\<rparr>"
    have s: "sweep_step now e c = c1" using False by (simp add: sweep_step_live c1_def)
    have c1: "consistent c1" using Cons.prems(1) by (simp add: c1_def)
    have l1: "list c1 = list c" by (simp add: c1_def)
    have fr: "maxMem c1 = maxMem c"
      "earliestExpiration c1 = min (earliestExpiration c) (expiration e)"
      "disabled c1 = disabled c" "reads c1 = reads c" "hits c1 = hits c"
      by (simp_all add: c1_def)
    have f: "filter (\<lambda>x. x \<notin> set es \<or> now \<le> expiration x) (list c)
             = filter (\<lambda>x. x \<notin> set (e # es) \<or> now \<le> expiration x) (list c)"
      using False by (auto intro: filter_cong)
    have m: "expiration ` {x \<in> set (e # es). now \<le> expiration x}
             = insert (expiration e) (expiration ` {x \<in> set es. now \<le> expiration x})"
      using False by auto
    have mm: "Min (insert (min (earliestExpiration c) (expiration e))
                 (expiration ` {x \<in> set es. now \<le> expiration x}))
              = Min (insert (earliestExpiration c) (expiration ` {x \<in> set (e # es). now \<le> expiration x}))"
      unfolding m by (rule Min_insert_min) simp
    from Cons.IH [OF c1 d] sub show ?thesis
      unfolding fold_simps s l1 f fr mm by simp
  qed
qed

lemma evictExpired_skip:
  "now < earliestExpiration c \<Longrightarrow> internal_evictExpired now c = c"
  by (simp add: internal_evictExpired_def)

lemma evictExpired_consistent:
  assumes "consistent c" "earliestExpiration c \<le> now"
  shows "consistent (internal_evictExpired now c) \<and>
         list (internal_evictExpired now c) = filter (\<lambda>x. now \<le> expiration x) (list c) \<and>
         earliestExpiration (internal_evictExpired now c) =
           Min (insert (now + 24 * hour) (expiration ` set (list (internal_evictExpired now c)))) \<and>
         maxMem (internal_evictExpired now c) = maxMem c \<and>
         disabled (internal_evictExpired now c) = disabled c \<and>
         reads (internal_evictExpired now c) = reads c \<and>
         hits (internal_evictExpired now c) = hits c"
proof -
  define c0 where "c0 = c\<lparr>earliestExpiration := now + 24 * hour\<rparr>"
  have e: "internal_evictExpired now c = fold (sweep_step now) (rev (list c)) c0"
    using assms(2) by (simp add: internal_evictExpired_def c0_def)
  have c0: "consistent c0" "list c0 = list c" "earliestExpiration c0 = now + 24 * hour"
    "maxMem c0 = maxMem c" "disabled c0 = disabled c" "reads c0 = reads c" "hits c0 = hits c"
    using assms(1) by (simp_all add: c0_def)
  from assms(1) have "distinct (list c)" by (simp add: consistent_def distinct_map)
  then have d: "distinct (rev (list c))" by simp
  have sub: "set (rev (list c)) \<subseteq> set (list c0)" by (simp add: c0)
  have f: "filter (\<lambda>x. x \<notin> set (rev (list c)) \<or> now \<le> expiration x) (list c)
           = filter (\<lambda>x. now \<le> expiration x) (list c)"
    by (auto intro: filter_cong)
  have m: "{x \<in> set (rev (list c)). now \<le> expiration x}
           = set (filter (\<lambda>x. now \<le> expiration x) (list c))" by auto
  from sweep_fold [OF c0(1) d sub, of now] show ?thesis
    unfolding e c0 f m by simp
qed

subsection \<open>Insertion, lookup and whole operations on a consistent store\<close>

lemma consistent_counters [simp]:
  "consistent (c\<lparr>reads := r\<rparr>) = consistent c"
  "consistent (c\<lparr>hits := h\<rparr>) = consistent c"
  "consistent (c\<lparr>disabled := b\<rparr>) = consistent c"
  by (simp_all add: consistent_def)

lemma cache_entry:
  "consistent c \<Longrightarrow> cache c k = Some e \<Longrightarrow> e \<in> set (list c) \<and> key e = k"
  by (simp add: consistent_def index_of_Some)

lemma insertFront_consistent:
  assumes "consistent c"
  shows "consistent (insertFront k v x c) \<and>
         list (insertFront k v x c) =
           \<lparr>key = k, value = v, expiration = x\<rparr> # filter (\<lambda>e. key e \<noteq> k) (list c) \<and>
         earliestExpiration (insertFront k v x c) = min (earliestExpiration c) x \<and>
         maxMem (insertFront k v x c) = maxMem c \<and>
         disabled (insertFront k v x c) = disabled c \<and>
         reads (insertFront k v x c) = reads c \<and>
         hits (insertFront k v x c) = hits c"
proof -
  define c1 where "c1 = internal_deleteKey k c"
  have c1: "consistent c1" unfolding c1_def using assms by (rule deleteKey_consistent)
  have l1: "list c1 = filter (\<lambda>e. key e \<noteq> k) (list c)"
    unfolding c1_def using assms by (rule deleteKey_list)
  have fr: "maxMem c1 = maxMem c" "earliestExpiration c1 = earliestExpiration c"
    "disabled c1 = disabled c" "reads c1 = reads c" "hits c1 = hits c"
    by (simp_all add: c1_def deleteKey_frame)
  have nk: "k \<notin> key ` set (list c1)" unfolding l1 by auto
  show ?thesis
    using c1 nk l1 fr
    by (auto simp: insertFront_def Let_def c1_def [symmetric] consistent_def index_of_Cons min_def)
qed

lemma moveToFront_consistent:
  assumes "consistent c" "cache c k = Some e"
  shows "moveToFront e (list c) = e # remove1 e (list c) \<and>
         consistent (c\<lparr>list := moveToFront e (list c)\<rparr>)"
proof -
  from assms have e: "e \<in> set (list c)" "key e = k" by (simp_all add: cache_entry)
  from assms(1) have d: "distinct (map key (list c))" and i: "cache c = index_of (list c)"
    and m: "mem c = sum_list (map size_entry (list c))" by (simp_all add: consistent_def)
  have r: "remove1 e (list c) = filter (\<lambda>x. key x \<noteq> key e) (list c)"
    using d e(1) by (rule remove1_filter_key)
  have mv: "moveToFront e (list c) = e # remove1 e (list c)"
    using e(1) by (simp add: moveToFront_def)
  have d': "distinct (map key (e # remove1 e (list c)))"
    unfolding r using d by (auto simp: distinct_map_filter)
  have "index_of (list c) (key e) = Some e" using d e(1) by (simp add: index_of_Some)
  then have i': "index_of (e # remove1 e (list c)) = index_of (list c)"
    unfolding r by (simp add: index_of_Cons index_of_filter map_upd_triv)
  have m': "sum_list (map size_entry (e # remove1 e (list c))) = sum_list (map size_entry (list c))"
    using sum_list_map_remove1 [OF e(1), of size_entry] by simp
  show ?thesis using mv d' i' m' i m by (simp add: consistent_def)
qed

lemma get_consistent:
  assumes "consistent c"
  shows "consistent (snd (get k now c)) \<and>
         set (list (snd (get k now c))) \<subseteq> set (list c) \<and>
         earliestExpiration (snd (get k now c)) = earliestExpiration c \<and>
         maxMem (snd (get k now c)) = maxMem c \<and>
         disabled (snd (get k now c)) = disabled c"
proof (cases "disabled c")
  case True
  with assms show ?thesis by (simp add: get_def)
next
  case en: False
  define c1 where "c1 = c\<lparr>reads := reads c + 1\<rparr>"
  have c1: "consistent c1" "list c1 = list c" "cache c1 = cache c"
    using assms by (simp_all add: c1_def)
  show ?thesis
  proof (cases "cache c k")
    case None
    with en assms show ?thesis by (simp add: get_def)
  next
    case (Some e)
    show ?thesis
    proof (cases "now < expiration e")
      case True
      have g: "snd (get k now c) = c1\<lparr>hits := hits c1 + 1, list := moveToFront e (list c1)\<rparr>"
        using en Some True by (simp add: get_def c1_def)
      note mc = moveToFront_consistent [OF assms Some]
      have mv: "moveToFront e (list c) = e # remove1 e (list c)"
        using mc by (rule conjunct1)
      have con: "consistent (c\<lparr>list := moveToFront e (list c)\<rparr>)"
        using mc by (rule conjunct2)
      have "consistent (snd (get k now c))"
        unfolding g using con by (simp add: consistent_def c1_def)
      moreover have "set (list (snd (get k now c))) \<subseteq> set (list c)"
        unfolding g using mv assms Some
        using set_remove1_subset [of e "list c"] by (auto simp: c1_def cache_entry)
      ultimately show ?thesis unfolding g by (simp add: c1_def)
    next
      case False
      have g: "snd (get k now c) = internal_deleteKey (key e) c1"
        using en Some False by (simp add: get_def c1_def)
      show ?thesis unfolding g
        using deleteKey_consistent [OF c1(1), of "key e"] deleteKey_list [OF c1(1), of "key e"] c1
        by (auto simp: deleteKey_frame c1_def)
    qed
  qed
qed


lemma evictExpired_general:
  assumes "consistent c"
  shows "consistent (internal_evictExpired now c) \<and>
         list (internal_evictExpired now c) =
           (if now < earliestExpiration c then list c
            else filter (\<lambda>x. now \<le> expiration x) (list c)) \<and>
         (watermark_ok c \<longrightarrow> watermark_ok (internal_evictExpired now c)) \<and>
         maxMem (internal_evictExpired now c) = maxMem c \<and>
         disabled (internal_evictExpired now c) = disabled c \<and>
         reads (internal_evictExpired now c) = reads c \<and>
         hits (internal_evictExpired now c) = hits c"
proof (cases "now < earliestExpiration c")
  case True
  with assms show ?thesis by (simp add: evictExpired_skip)
next
  case False
  then have le: "earliestExpiration c \<le> now" by simp
  note sw = evictExpired_consistent [OF assms le]
  have "watermark_ok (internal_evictExpired now c)"
    unfolding watermark_ok_def
  proof
    fix e assume "e \<in> set (list (internal_evictExpired now c))"
    then have "Min (insert (now + 24 * hour) (expiration ` set (list (internal_evictExpired now c))))
               \<le> expiration e" by (intro Min_le) auto
    with sw show "earliestExpiration (internal_evictExpired now c) \<le> expiration e" by simp
  qed
  with sw False show ?thesis by simp
qed

lemma put_consistent:
  assumes "consistent c"
  shows "\<exists>c'. put k v ttl now snow c = Some c' \<and> consistent c' \<and>
           (watermark_ok c \<longrightarrow> watermark_ok c') \<and>
           (disabled c \<longrightarrow> c' = c) \<and>
           (disabled c \<or> mem c' \<le> maxMem c \<or> length (list c') \<le> 1) \<and>
           maxMem c' = maxMem c \<and> disabled c' = disabled c \<and>
           reads c' = reads c \<and> hits c' = hits c"
proof (cases "disabled c")
  case True
  with assms show ?thesis by (simp add: put_def)
next
  case en: False
  define c3 where "c3 = insertFront k v (now + ttl) c"
  note ins = insertFront_consistent [OF assms, of k v "now + ttl", folded c3_def]
  have w3: "watermark_ok c \<longrightarrow> watermark_ok c3"
    using ins by (auto simp: watermark_ok_def)
  show ?thesis
  proof (cases "maxMem c3 < mem c3")
    case False
    then have "put k v ttl now snow c = Some c3"
      using en by (simp add: put_def c3_def)
    with ins w3 en False show ?thesis by simp
  next
    case True
    define c4 where "c4 = internal_evictExpired snow c3"
    have c3: "consistent c3" using ins by simp
    note sw = evictExpired_general [OF c3, of snow, folded c4_def]
    have c4: "consistent c4" using sw by simp
    from evictLoop_consistent [OF c4] obtain c' where
      ev: "evictLoop c4 = Some c'" and con: "consistent c'"
      and pre: "list c' = take (length (list c')) (list c4)"
      and ex: "mem c' \<le> maxMem c4 \<or> length (list c') \<le> 1"
      and fr: "maxMem c' = maxMem c4" "earliestExpiration c' = earliestExpiration c4"
        "disabled c' = disabled c4" "reads c' = reads c4" "hits c' = hits c4"
      by blast
    have p: "put k v ttl now snow c = Some c'"
      using en True ev by (simp add: put_def c3_def [symmetric] c4_def [symmetric])
    have "watermark_ok c4 \<longrightarrow> watermark_ok c'"
      unfolding watermark_ok_def fr using pre by (metis in_set_takeD)
    with w3 sw have w: "watermark_ok c \<longrightarrow> watermark_ok c'" by simp
    show ?thesis using p con w en ex fr sw ins by auto
  qed
qed

lemma deleteKey_watermark:
  "consistent c \<Longrightarrow> watermark_ok c \<Longrightarrow> watermark_ok (internal_deleteKey k c)"
  by (simp add: watermark_ok_def deleteKey_list deleteKey_frame)

lemma newLRU_sound: "sound (newLRU m t0)"
  by (simp add: sound_def consistent_def watermark_ok_def newLRU_def index_of_def)

lemma get_counters:
  "hits c \<le> reads c \<Longrightarrow> hits (snd (get k now c)) \<le> reads (snd (get k now c))"
  by (simp add: get_def Let_def deleteKey_frame split: option.splits)

lemma step_sound:
  assumes "sound c"
  shows "\<exists>c'. step x c = Some c' \<and> sound c' \<and> maxMem c' = maxMem c"
proof (cases x)
  case (Get k now)
  note g = get_consistent [OF assms [unfolded sound_def, THEN conjunct1], of k now]
  have "watermark_ok (snd (get k now c))"
    using g assms by (auto simp: sound_def watermark_ok_def)
  moreover have "disabled (snd (get k now c)) \<longrightarrow> list (snd (get k now c)) = []"
    using g assms by (auto simp: sound_def)
  ultimately show ?thesis using Get g assms get_counters [of c k now] by (simp add: sound_def)
next
  case (Put k v ttl now snow)
  from put_consistent [OF assms [unfolded sound_def, THEN conjunct1], of k v ttl now snow]
  obtain c' where "put k v ttl now snow c = Some c'" "consistent c'"
    "watermark_ok c \<longrightarrow> watermark_ok c'" "disabled c \<longrightarrow> c' = c"
    "maxMem c' = maxMem c" "disabled c' = disabled c" "reads c' = reads c" "hits c' = hits c"
    by blast
  with Put assms show ?thesis by (auto simp: sound_def)
next
  case (RemoveOp k)
  with assms show ?thesis
    by (auto simp: sound_def Remove_def deleteKey_def deleteKey_consistent deleteKey_watermark
        deleteKey_frame deleteKey_list)
next
  case ResetOp
  with assms show ?thesis
    by (simp add: sound_def Reset_def reset_def consistent_def watermark_ok_def index_of_def)
next
  case (DisableOp b)
  with assms show ?thesis
    by (cases b) (simp_all add: sound_def Disable_def reset_def consistent_def watermark_ok_def index_of_def)
qed

lemma run_sound:
  "sound c \<Longrightarrow> \<exists>c'. run xs c = Some c' \<and> sound c' \<and> maxMem c' = maxMem c"
proof (induction xs arbitrary: c)
  case Nil
  then show ?case by simp
next
  case (Cons x xs)
  from step_sound [OF Cons.prems, of x] obtain c1 where
    s: "step x c = Some c1" "sound c1" "maxMem c1 = maxMem c" by blast
  from Cons.IH [OF s(2)] obtain c' where "run xs c1 = Some c'" "sound c'" "maxMem c' = maxMem c1"
    by blast
  with s show ?case by simp
qed

lemma run_fresh:
  "\<exists>c. run xs (newLRU m t0) = Some c \<and> sound c \<and> maxMem c = m"
  using run_sound [OF newLRU_sound, of xs m t0] by (simp add: newLRU_def)

lemma size_entry_pos: "24 \<le> size_entry e"
  by (simp add: size_entry_def)

lemma sum_sizes_nonneg: "0 \<le> sum_list (map size_entry xs)"
proof (induction xs)
  case Nil
  then show ?case by simp
next
  case (Cons a xs)
  with size_entry_pos [of a] show ?case by simp
qed

lemma take_self_hd:
  assumes "ys = take (length ys) (x # xs)" "ys \<noteq> []"
  shows "\<exists>zs. ys = x # zs"
  using assms by (cases ys) (auto simp: take_Cons split: nat.splits)

text \<open>The result of \<open>put\<close> on an enabled consistent store, through its two intermediate states.\<close>

lemma put_enabled:
  fixes k v now ttl snow c
  defines "c3 \<equiv> insertFront k v (now + ttl) c"
  defines "c4 \<equiv> internal_evictExpired snow c3"
  assumes cc: "consistent c" and en: "\<not> disabled c"
  shows "\<exists>c'. put k v ttl now snow c = Some c' \<and> consistent c' \<and>
           (mem c3 \<le> maxMem c \<longrightarrow> c' = c3) \<and>
           (maxMem c < mem c3 \<longrightarrow>
              list c' = take (length (list c')) (list c4) \<and>
              (mem c' \<le> maxMem c \<or> length (list c') \<le> 1) \<and>
              (length (list c') < length (list c4) \<longrightarrow>
                 1 \<le> length (list c') \<and>
                 maxMem c < mem c' + size_entry (list c4 ! length (list c'))) \<and>
              (list c4 \<noteq> [] \<longrightarrow> list c' \<noteq> [])) \<and>
           maxMem c' = maxMem c"
proof -
  note ins = insertFront_consistent [OF cc, of k v "now + ttl", folded c3_def]
  have c3: "consistent c3" using ins by simp
  note sw = evictExpired_general [OF c3, of snow, folded c4_def]
  show ?thesis
  proof (cases "maxMem c3 < mem c3")
    case False
    then have "put k v ttl now snow c = Some c3"
      using en by (simp add: put_def c3_def)
    with ins False show ?thesis by simp
  next
    case True
    have c4: "consistent c4" using sw by simp
    from evictLoop_consistent [OF c4] obtain c' where
      ev: "evictLoop c4 = Some c'" and con: "consistent c'"
      and pre: "list c' = take (length (list c')) (list c4)"
      and mini: "length (list c') < length (list c4) \<longrightarrow>
              1 \<le> length (list c') \<and> maxMem c4 < mem c' + size_entry (list c4 ! length (list c'))"
      and ex: "mem c' \<le> maxMem c4 \<or> length (list c') \<le> 1"
      and nonempty: "list c4 \<noteq> [] \<longrightarrow> list c' \<noteq> []"
      and fr: "maxMem c' = maxMem c4"
      by blast
    have p: "put k v ttl now snow c = Some c'"
      using en True ev by (simp add: put_def c3_def [symmetric] c4_def [symmetric])
    have mm: "maxMem c4 = maxMem c" using sw ins by simp
    show ?thesis using p con pre mini ex nonempty fr True ins unfolding mm by auto
  qed
qed

text \<open>An entry that has not expired when the sweep runs stays at the front.\<close>

lemma put_unexpired:
  assumes "consistent c" "\<not> disabled c" "snow \<le> now + ttl"
  shows "\<exists>c' zs. put k v ttl now snow c = Some c' \<and> consistent c' \<and>
           list c' = \<lparr>key = k, value = v, expiration = now + ttl\<rparr> # zs \<and>
           set zs \<subseteq> set (list c) \<and>
           (mem c' \<le> maxMem c \<or> zs = []) \<and> maxMem c' = maxMem c"
proof -
  define c3 where "c3 = insertFront k v (now + ttl) c"
  define c4 where "c4 = internal_evictExpired snow c3"
  define new where "new = \<lparr>key = k, value = v, expiration = now + ttl\<rparr>"
  note ins = insertFront_consistent [OF assms(1), of k v "now + ttl", folded c3_def new_def]
  have c3: "consistent c3" using ins by simp
  have l3: "list c3 = new # filter (\<lambda>e. key e \<noteq> k) (list c)" using ins by simp
  note sw = evictExpired_general [OF c3, of snow, folded c4_def]
  have "snow \<le> expiration new" using assms(3) by (simp add: new_def)
  with sw l3 obtain ys where l4: "list c4 = new # ys" and ys: "set ys \<subseteq> set (list c)"
    by (cases "snow < earliestExpiration c3") auto
  from put_enabled [OF assms(1,2), where k = k and v = v and now = now and ttl = ttl
      and snow = snow, folded c3_def c4_def]
  obtain c' where p: "put k v ttl now snow c = Some c'" and con: "consistent c'"
    and small: "mem c3 \<le> maxMem c \<longrightarrow> c' = c3"
    and big: "maxMem c < mem c3 \<longrightarrow>
              list c' = take (length (list c')) (list c4) \<and>
              (mem c' \<le> maxMem c \<or> length (list c') \<le> 1) \<and>
              (list c4 \<noteq> [] \<longrightarrow> list c' \<noteq> [])"
    and mm: "maxMem c' = maxMem c" by blast
  show ?thesis
  proof (cases "maxMem c < mem c3")
    case False
    with small have "c' = c3" by simp
    with p con l3 False mm show ?thesis by (auto simp: new_def)
  next
    case True
    with big l4 have pre: "list c' = take (length (list c')) (new # ys)" and ne: "list c' \<noteq> []"
      and ex: "mem c' \<le> maxMem c \<or> length (list c') \<le> 1" by simp_all
    from take_self_hd [OF pre ne] obtain zs where zs: "list c' = new # zs" by blast
    with ex have e: "mem c' \<le> maxMem c \<or> zs = []" by auto
    have "set (list c') \<subseteq> set (new # ys)" by (subst pre) (rule set_take_subset)
    moreover from con zs have "new \<notin> set zs" by (auto simp: consistent_def)
    ultimately have "set zs \<subseteq> set (list c)" using zs ys by auto
    with p con zs mm e show ?thesis by (auto simp: new_def)
  qed
qed

lemma evictLoop_counters:
  assumes "evictLoop c = Some c'"
  shows "reads c' = reads c \<and> hits c' = hits c"
proof (rule evictLoop.raw_induct [where P = "\<lambda>c c'. reads c' = reads c \<and> hits c' = hits c", OF _ assms])
  fix f c c'
  assume ih: "\<And>x y. f x = Some y \<Longrightarrow> reads y = reads x \<and> hits y = hits x"
    and eq: "(if maxMem c < mem c \<and> 1 < length (list c)
              then f (internal_deleteKey (key (last (list c))) c) else Some c) = Some c'"
  show "reads c' = reads c \<and> hits c' = hits c"
  proof (cases "maxMem c < mem c \<and> 1 < length (list c)")
    case True
    with eq have "f (internal_deleteKey (key (last (list c))) c) = Some c'" by simp
    from ih [OF this] show ?thesis by (simp add: deleteKey_frame)
  next
    case False
    with eq show ?thesis by (auto split: if_splits)
  qed
qed

lemma sweep_step_counters:
  "reads (sweep_step now e c) = reads c \<and> hits (sweep_step now e c) = hits c"
  by (simp add: sweep_step_def deleteKey_frame)

lemma sweep_fold_counters:
  "reads (fold (sweep_step now) es c) = reads c \<and> hits (fold (sweep_step now) es c) = hits c"
  by (induction es arbitrary: c) (simp_all add: sweep_step_counters)

lemma evictExpired_counters:
  "reads (internal_evictExpired now c) = reads c \<and> hits (internal_evictExpired now c) = hits c"
  by (simp add: internal_evictExpired_def sweep_fold_counters)

lemma insertFront_counters:
  "reads (insertFront k v x c) = reads c \<and> hits (insertFront k v x c) = hits c"
  by (simp add: insertFront_def Let_def deleteKey_frame)

lemma put_counters:
  "put k v ttl now snow c = Some c' \<Longrightarrow> reads c' = reads c \<and> hits c' = hits c"
  by (auto simp: put_def Let_def evictExpired_counters insertFront_counters
      split: if_splits dest!: evictLoop_counters)

subsection \<open>Memory accounting, the capacity bound, the watermark and the counters\<close>

text \<open>
  C4. After every sequence of operations on a fresh store, \<open>mem\<close> is the sum of the
  sizes of the entries in the list, and the map indexes exactly these entries, one per
  key; the size of an entry is the length of its key plus the length of its value plus
  24. A \<open>put\<close> on a fresh store of an entry that has not expired when the sweep runs
  leaves \<open>mem\<close> at key length plus value length plus 24, and removing the key brings
  \<open>mem\<close> back to 0.
\<close>

theorem mem_is_sum_of_sizes:
  "(\<exists>c. run xs (newLRU m start) = Some c \<and>
        mem c = sum_list (map size_entry (list c)) \<and>
        cache c = index_of (list c) \<and> distinct (map key (list c))) \<and>
   size_entry e = int (length (key e)) + int (length (value e)) + 24 \<and>
   (snow \<le> now + ttl \<longrightarrow>
      (\<exists>c. put k v ttl now snow (newLRU m start) = Some c \<and>
           mem c = int (length k) + int (length v) + 24 \<and>
           mem (Remove k c) = 0))"
proof -
  from run_fresh [of xs m start] have a: "\<exists>c. run xs (newLRU m start) = Some c \<and>
        mem c = sum_list (map size_entry (list c)) \<and>
        cache c = index_of (list c) \<and> distinct (map key (list c))"
    by (auto simp: sound_def consistent_def)
  have b: "\<exists>c. put k v ttl now snow (newLRU m start) = Some c \<and>
           mem c = int (length k) + int (length v) + 24 \<and> mem (Remove k c) = 0"
    if live: "snow \<le> now + ttl"
  proof -
    have f: "consistent (newLRU m start)" "\<not> disabled (newLRU m start)" "list (newLRU m start) = []"
      using newLRU_sound [of m start] by (simp_all add: sound_def newLRU_def)
    from put_unexpired [OF f(1,2) live, of k v] obtain c' zs where
      p: "put k v ttl now snow (newLRU m start) = Some c'" and con: "consistent c'"
      and l: "list c' = \<lparr>key = k, value = v, expiration = now + ttl\<rparr> # zs"
      and sub: "set zs \<subseteq> set (list (newLRU m start))" by blast
    from sub f(3) have zs: "zs = []" by simp
    with con l have m: "mem c' = int (length k) + int (length v) + 24"
      by (simp add: consistent_def size_entry_def)
    have "list (Remove k c') = []" "consistent (Remove k c')"
      using deleteKey_list [OF con, of k] deleteKey_consistent [OF con, of k] l zs
      by (simp_all add: Remove_def deleteKey_def)
    then have "mem (Remove k c') = 0" by (simp add: consistent_def)
    with p m show ?thesis by simp
  qed
  show ?thesis using a b by (simp add: size_entry_def)
qed

theorem mem_is_sum_of_sizes_witness:
  "(0::int) \<le> 0 + 300 \<and>
   (\<exists>c. put ''A'' ''AAA'' 300 0 0 (newLRU 100 5) = Some c \<and> mem c = 28 \<and> mem (Remove ''A'' c) = 0)"
  using mem_is_sum_of_sizes [where snow = 0 and now = 0 and ttl = 300 and k = "''A''"
      and v = "''AAA''" and m = 100 and start = 5]
  by simp

text \<open>
  C2. On a store of capacity \<open>m \<ge> 0\<close>, after any sequence of operations, a \<open>put\<close>
  returns and leaves either \<open>mem \<le> maxMem\<close> or exactly one entry in the list. If the
  store is enabled, the new entry alone is larger than the capacity and it has not
  expired when the sweep runs, then it ends as the only entry, with \<open>mem\<close> equal to its
  size and above \<open>maxMem\<close>.
\<close>

theorem put_capacity_or_single:
  assumes "0 \<le> m"
  shows "\<exists>c. run xs (newLRU m start) = Some c \<and>
           (\<exists>c'. put k v ttl now snow c = Some c' \<and>
                 (mem c' \<le> maxMem c' \<or> length (list c') = 1)) \<and>
           (\<not> disabled c \<and> m < size_entry \<lparr>key = k, value = v, expiration = now + ttl\<rparr> \<and>
            snow \<le> now + ttl \<longrightarrow>
              (\<exists>c'. put k v ttl now snow c = Some c' \<and>
                    list c' = [\<lparr>key = k, value = v, expiration = now + ttl\<rparr>] \<and>
                    mem c' = size_entry \<lparr>key = k, value = v, expiration = now + ttl\<rparr> \<and>
                    maxMem c' < mem c'))"
proof -
  from run_fresh [of xs m start] obtain c where
    r: "run xs (newLRU m start) = Some c" and s: "sound c" and mm: "maxMem c = m" by blast
  from s have con: "consistent c" and idle: "disabled c \<longrightarrow> list c = []"
    by (simp_all add: sound_def)
  have one: "\<exists>c'. put k v ttl now snow c = Some c' \<and>
                 (mem c' \<le> maxMem c' \<or> length (list c') = 1)"
  proof -
    from put_consistent [OF con, of k v ttl now snow] obtain c' where
      p: "put k v ttl now snow c = Some c'" and con': "consistent c'"
      and d: "disabled c \<longrightarrow> c' = c"
      and ex: "disabled c \<or> mem c' \<le> maxMem c \<or> length (list c') \<le> 1"
      and mm': "maxMem c' = maxMem c" by blast
    have "mem c' \<le> maxMem c' \<or> length (list c') = 1"
    proof (cases "list c' = []")
      case True
      with con' have "mem c' = 0" by (simp add: consistent_def)
      with assms mm mm' show ?thesis by simp
    next
      case False
      with d idle have "\<not> disabled c" by auto
      moreover from False have "1 \<le> length (list c')" by (cases "list c'") auto
      ultimately show ?thesis using ex mm' by auto
    qed
    with p show ?thesis by blast
  qed
  have two: "\<exists>c'. put k v ttl now snow c = Some c' \<and>
                    list c' = [\<lparr>key = k, value = v, expiration = now + ttl\<rparr>] \<and>
                    mem c' = size_entry \<lparr>key = k, value = v, expiration = now + ttl\<rparr> \<and>
                    maxMem c' < mem c'"
    if en: "\<not> disabled c"
      and big: "m < size_entry \<lparr>key = k, value = v, expiration = now + ttl\<rparr>"
      and live: "snow \<le> now + ttl"
  proof -
    from put_unexpired [OF con en live, of k v] obtain c' zs where
      p: "put k v ttl now snow c = Some c'" and con': "consistent c'"
      and l: "list c' = \<lparr>key = k, value = v, expiration = now + ttl\<rparr> # zs"
      and ex: "mem c' \<le> maxMem c \<or> zs = []" and mm': "maxMem c' = maxMem c" by blast
    from con' l have "mem c' = size_entry \<lparr>key = k, value = v, expiration = now + ttl\<rparr>
                       + sum_list (map size_entry zs)" by (simp add: consistent_def)
    with sum_sizes_nonneg [of zs] big mm ex have zs: "zs = []" by auto
    with con' l have "mem c' = size_entry \<lparr>key = k, value = v, expiration = now + ttl\<rparr>"
      by (simp add: consistent_def)
    with p l zs big mm mm' show ?thesis by simp
  qed
  show ?thesis using r one two by blast
qed

theorem put_capacity_or_single_witness:
  "(0::int) \<le> 10 \<and>
   (\<exists>c. run [Put ''B'' ''BBB'' 300 0 0] (newLRU 10 0) = Some c \<and> \<not> disabled c \<and>
        10 < size_entry \<lparr>key = ''A'', value = ''AAA'', expiration = 1 + 300\<rparr> \<and>
        (2::int) \<le> 1 + 300 \<and>
        (\<exists>c'. put ''A'' ''AAA'' 300 1 2 c = Some c' \<and>
              list c' = [\<lparr>key = ''A'', value = ''AAA'', expiration = 1 + 300\<rparr>] \<and>
              mem c' = 28 \<and> maxMem c' < mem c'))"
proof -
  have m: "(0::int) \<le> 10" by simp
  have r: "run [Put ''B'' ''BBB'' 300 0 0] (newLRU 10 0) =
           Some \<lparr>maxMem = 10, mem = 28,
                 cache = [''B'' \<mapsto> \<lparr>key = ''B'', value = ''BBB'', expiration = 300\<rparr>],
                 list = [\<lparr>key = ''B'', value = ''BBB'', expiration = 300\<rparr>],
                 earliestExpiration = 300, disabled = False, reads = 0, hits = 0\<rparr>"
    by (simp add: put_def insertFront_def internal_deleteKey_def newLRU_def size_entry_def
        hour_def internal_evictExpired_def evictLoop.simps Let_def)
  show ?thesis
    using put_capacity_or_single [OF m, where xs = "[Put ''B'' ''BBB'' 300 0 0]" and start = 0
        and k = "''A''" and v = "''AAA''" and ttl = 300 and now = 1 and snow = 2]
    unfolding r by (simp add: size_entry_def)
qed

text \<open>
  C5. After every sequence of operations on a fresh store, \<open>earliestExpiration\<close> is at
  most the expiration of every entry in the list.
\<close>

theorem watermark_never_late:
  "\<exists>c. run xs (newLRU m start) = Some c \<and>
       (\<forall>e\<in>set (list c). earliestExpiration c \<le> expiration e)"
  using run_fresh [of xs m start] by (auto simp: sound_def watermark_ok_def)

theorem watermark_never_late_witness:
  "\<exists>c. run [Put ''A'' ''AAA'' 300 0 0, Put ''B'' ''BBB'' 100 1 1] (newLRU 100 0) = Some c \<and>
       list c = [\<lparr>key = ''B'', value = ''BBB'', expiration = 101\<rparr>,
                 \<lparr>key = ''A'', value = ''AAA'', expiration = 300\<rparr>] \<and>
       earliestExpiration c \<le> 101 \<and> earliestExpiration c \<le> 300"
proof -
  have r: "map_option list (run [Put ''A'' ''AAA'' 300 0 0, Put ''B'' ''BBB'' 100 1 1] (newLRU 100 0)) =
           Some [\<lparr>key = ''B'', value = ''BBB'', expiration = 101\<rparr>,
                 \<lparr>key = ''A'', value = ''AAA'', expiration = 300\<rparr>]"
    by (simp add: put_def insertFront_def internal_deleteKey_def newLRU_def size_entry_def
        hour_def internal_evictExpired_def evictLoop.simps Let_def)
  from watermark_never_late [where xs = "[Put ''A'' ''AAA'' 300 0 0, Put ''B'' ''BBB'' 100 1 1]"
      and m = 100 and start = 0]
  obtain c where c: "run [Put ''A'' ''AAA'' 300 0 0, Put ''B'' ''BBB'' 100 1 1] (newLRU 100 0) = Some c"
    and w: "\<forall>e\<in>set (list c). earliestExpiration c \<le> expiration e" by blast
  from r c have l: "list c = [\<lparr>key = ''B'', value = ''BBB'', expiration = 101\<rparr>,
                 \<lparr>key = ''A'', value = ''AAA'', expiration = 300\<rparr>]" by simp
  with w have "earliestExpiration c \<le> 101 \<and> earliestExpiration c \<le> 300" by simp
  with c l show ?thesis by blast
qed

text \<open>
  C9. After every sequence of operations on a fresh store \<open>hits \<le> reads\<close>. Across
  one operation on any store neither counter decreases: \<open>reads\<close> grows, by one, exactly
  when the operation is a \<open>get\<close> on an enabled store, and \<open>hits\<close> grows, by one, exactly
  when that \<open>get\<close> finds an entry that has not expired.
\<close>

theorem counters_monotone:
  "(\<exists>c. run xs (newLRU m start) = Some c \<and> hits c \<le> reads c) \<and>
   (step x s = Some s' \<longrightarrow>
      reads s \<le> reads s' \<and> hits s \<le> hits s' \<and>
      reads s' =
        (if \<not> disabled s \<and> (\<exists>k now. x = Get k now) then reads s + 1 else reads s) \<and>
      hits s' =
        (if \<not> disabled s \<and> (\<exists>k now e. x = Get k now \<and> cache s k = Some e \<and> now < expiration e)
         then hits s + 1 else hits s))"
proof -
  have a: "\<exists>c. run xs (newLRU m start) = Some c \<and> hits c \<le> reads c"
    using run_fresh [of xs m start] by (auto simp: sound_def)
  have b: "reads s \<le> reads s' \<and> hits s \<le> hits s' \<and>
      reads s' =
        (if \<not> disabled s \<and> (\<exists>k now. x = Get k now) then reads s + 1 else reads s) \<and>
      hits s' =
        (if \<not> disabled s \<and> (\<exists>k now e. x = Get k now \<and> cache s k = Some e \<and> now < expiration e)
         then hits s + 1 else hits s)"
    if st: "step x s = Some s'"
  proof (cases x)
    case (Get k now)
    with st have "s' = snd (get k now s)" by simp
    with Get show ?thesis
      by (auto simp: get_def Let_def deleteKey_frame split: option.splits)
  next
    case (Put k v ttl now snow)
    with st put_counters [of k v ttl now snow s s'] show ?thesis by simp
  next
    case (RemoveOp k)
    with st show ?thesis by (auto simp: Remove_def deleteKey_def deleteKey_frame)
  next
    case ResetOp
    with st show ?thesis by (auto simp: Reset_def reset_def)
  next
    case (DisableOp b)
    with st show ?thesis by (auto simp: Disable_def reset_def)
  qed
  from a b show ?thesis by blast
qed

theorem counters_monotone_witness:
  "step (Get ''A'' 5) two_entries = Some (snd (get ''A'' 5 two_entries)) \<and>
   \<not> disabled two_entries \<and>
   reads (snd (get ''A'' 5 two_entries)) = reads two_entries + 1 \<and>
   hits (snd (get ''A'' 5 two_entries)) = hits two_entries + 1"
proof -
  have s: "step (Get ''A'' 5) two_entries = Some (snd (get ''A'' 5 two_entries))" by simp
  have e: "\<not> disabled two_entries \<and>
           cache two_entries ''A'' = Some \<lparr>key = ''A'', value = ''AAA'', expiration = 300\<rparr>"
    by (simp add: two_entries_def insertFront_def internal_deleteKey_def newLRU_def Let_def hour_def)
  then have "\<exists>k now e. Get ''A'' 5 = Get k now \<and> cache two_entries k = Some e \<and> now < expiration e"
    by auto
  with s e counters_monotone [where x = "Get ''A'' 5" and s = two_entries
      and s' = "snd (get ''A'' 5 two_entries)"]
  show ?thesis by auto
qed

subsection \<open>The expiration sweep\<close>

text \<open>
  C3, as amended. On a consistent store \<open>_evictExpired\<close> changes nothing when
  \<open>now < earliestExpiration\<close>. Otherwise it removes every entry whose expiration is
  before \<open>now\<close>, removes nothing else than entries of the list, keeps every entry whose
  expiration is after \<open>now\<close> in its place, and sets \<open>earliestExpiration\<close> to the
  minimum of \<open>now + 24h\<close> and the expirations of the entries that remain; \<open>mem\<close> and
  the map follow the list.
\<close>

theorem evictExpired_sweep:
  assumes "consistent c"
  shows "(now < earliestExpiration c \<longrightarrow> internal_evictExpired now c = c) \<and>
         (earliestExpiration c \<le> now \<longrightarrow>
            (\<forall>e\<in>set (list c). expiration e < now \<longrightarrow> e \<notin> set (list (internal_evictExpired now c))) \<and>
            set (list (internal_evictExpired now c)) \<subseteq> set (list c) \<and>
            filter (\<lambda>e. now < expiration e) (list (internal_evictExpired now c)) =
              filter (\<lambda>e. now < expiration e) (list c) \<and>
            earliestExpiration (internal_evictExpired now c) =
              Min (insert (now + 24 * hour) (expiration ` set (list (internal_evictExpired now c)))) \<and>
            mem (internal_evictExpired now c) =
              sum_list (map size_entry (list (internal_evictExpired now c))) \<and>
            cache (internal_evictExpired now c) = index_of (list (internal_evictExpired now c)))"
proof (cases "now < earliestExpiration c")
  case True
  then show ?thesis by (simp add: evictExpired_skip)
next
  case False
  then have le: "earliestExpiration c \<le> now" by simp
  note sw = evictExpired_consistent [OF assms le]
  have l: "list (internal_evictExpired now c) = filter (\<lambda>x. now \<le> expiration x) (list c)"
    using sw by simp
  have f: "filter (\<lambda>e. now < expiration e) (filter (\<lambda>x. now \<le> expiration x) (list c))
           = filter (\<lambda>e. now < expiration e) (list c)"
    by (auto intro: filter_cong)
  have "consistent (internal_evictExpired now c)" using sw by simp
  then have m: "mem (internal_evictExpired now c) =
              sum_list (map size_entry (list (internal_evictExpired now c)))"
    and i: "cache (internal_evictExpired now c) = index_of (list (internal_evictExpired now c))"
    by (simp_all add: consistent_def)
  have e: "earliestExpiration (internal_evictExpired now c) =
              Min (insert (now + 24 * hour) (expiration ` set (list (internal_evictExpired now c))))"
    using sw by simp
  have r: "\<forall>e\<in>set (list c). expiration e < now \<longrightarrow> e \<notin> set (list (internal_evictExpired now c))"
    unfolding l by auto
  have s: "set (list (internal_evictExpired now c)) \<subseteq> set (list c)" unfolding l by auto
  have k: "filter (\<lambda>e. now < expiration e) (list (internal_evictExpired now c)) =
              filter (\<lambda>e. now < expiration e) (list c)" unfolding l by (rule f)
  from False r s k e m i show ?thesis by blast
qed

theorem evictExpired_sweep_witness:
  "consistent sweep_input \<and>
   0 < earliestExpiration sweep_input \<and> internal_evictExpired 0 sweep_input = sweep_input \<and>
   earliestExpiration sweep_input \<le> 2 * hour \<and>
   list (internal_evictExpired (2 * hour) sweep_input) =
     [\<lparr>key = ''B'', value = ''b'', expiration = 50 * hour\<rparr>] \<and>
   earliestExpiration (internal_evictExpired (2 * hour) sweep_input) = 26 * hour \<and>
   mem (internal_evictExpired (2 * hour) sweep_input) = 26"
proof -
  have w: "0 < earliestExpiration sweep_input" "earliestExpiration sweep_input \<le> 2 * hour"
    unfolding sweep_input_value by (simp_all add: hour_def)
  from evictExpired_sweep [OF sweep_input_consistent, of 0] w(1)
  have a: "internal_evictExpired 0 sweep_input = sweep_input" by simp
  from evictExpired_sweep [OF sweep_input_consistent, of "2 * hour"] w(2)
  have "mem (internal_evictExpired (2 * hour) sweep_input) =
        sum_list (map size_entry (list (internal_evictExpired (2 * hour) sweep_input)))" by simp
  then have b: "mem (internal_evictExpired (2 * hour) sweep_input) = 26"
    using sweep_input_swept by (simp add: size_entry_def)
  show ?thesis using sweep_input_consistent w a b sweep_input_swept by simp
qed

text \<open>
  C3 as stated fails on the store \<open>sweep_input\<close>. Swept at two hours, \<open>A\<close> is removed
  and \<open>B\<close> survives, yet \<open>earliestExpiration\<close> becomes 26 hours, neither the minimum
  expiration among the survivors (50 hours) nor a sentinel for an empty store. Swept
  at exactly one hour, the expiration of \<open>A\<close>, the sweep runs and \<open>A\<close> is still resident.
\<close>

theorem evictExpired_not_min_of_survivors:
  "earliestExpiration sweep_input \<le> 2 * hour \<and>
   list (internal_evictExpired (2 * hour) sweep_input) =
     [\<lparr>key = ''B'', value = ''b'', expiration = 50 * hour\<rparr>] \<and>
   earliestExpiration (internal_evictExpired (2 * hour) sweep_input) = 26 * hour \<and>
   Min (expiration ` set (list (internal_evictExpired (2 * hour) sweep_input))) = 50 * hour \<and>
   earliestExpiration (internal_evictExpired (2 * hour) sweep_input)
     \<noteq> Min (expiration ` set (list (internal_evictExpired (2 * hour) sweep_input))) \<and>
   earliestExpiration sweep_input \<le> 1 * hour \<and>
   expiration \<lparr>key = ''A'', value = ''a'', expiration = 1 * hour\<rparr> \<le> 1 * hour \<and>
   list (internal_evictExpired (1 * hour) sweep_input) =
     [\<lparr>key = ''B'', value = ''b'', expiration = 50 * hour\<rparr>,
      \<lparr>key = ''A'', value = ''a'', expiration = 1 * hour\<rparr>]"
  unfolding sweep_input_value
  by (simp add: internal_evictExpired_def sweep_step_def internal_deleteKey_def hour_def)

subsection \<open>Recency order and eviction from the back\<close>



end
